theory Spec2Isabelle
  imports Main "HOL-Library.Word"
begin

unbundle bit_operations_syntax

section \<open>Strings of the Go runtime\<close>

text \<open>
  A Go \<open>string\<close> and a \<open>[]byte\<close> are sequences of bytes; both are modelled as
  \<^typ>\<open>string\<close>, a list of 8-bit characters. The conversion \<open>string(data)\<close>
  is the identity.
\<close>

definition newline :: char where
  "newline = CHR 0x0A"

definition colon :: char where
  "colon = CHR 0x3A"

text \<open>
  \<open>strings.Split(s, sep)\<close> for a separator of one byte, the only way the package calls
  it (\<open>"\n"\<close> and \<open>":"\<close>). The result is never empty: a string without the
  separator is returned as its only field.
\<close>

fun Split :: "string \<Rightarrow> char \<Rightarrow> string list" where
  "Split [] sep = [[]]"
| "Split (c # cs) sep =
     (if c = sep then [] # Split cs sep
      else (case Split cs sep of
              [] \<Rightarrow> [[c]]
            | x # xs \<Rightarrow> (c # x) # xs))"

text \<open>
  \<open>unicode.IsSpace\<close>: the white space runes are U+0009 to U+000D, U+0020, U+0085,
  U+00A0, U+1680, U+2000 to U+200A, U+2028, U+2029, U+202F, U+205F and U+3000.
  \<open>spaceRunes\<close> lists their UTF-8 encodings. A decoder accepts only the shortest
  encoding of a rune, and an invalid byte decodes to U+FFFD, which is not white space;
  so the rune at the front (at the end) of a string is white space exactly when the
  string starts (ends) with one of these byte sequences.
\<close>

definition spaceRunes :: "string list" where
  "spaceRunes =
    [[CHR 0x09], [CHR 0x0A], [CHR 0x0B], [CHR 0x0C], [CHR 0x0D], [CHR 0x20],
     [CHR 0xC2, CHR 0x85], [CHR 0xC2, CHR 0xA0],
     [CHR 0xE1, CHR 0x9A, CHR 0x80],
     [CHR 0xE2, CHR 0x80, CHR 0x80], [CHR 0xE2, CHR 0x80, CHR 0x81],
     [CHR 0xE2, CHR 0x80, CHR 0x82], [CHR 0xE2, CHR 0x80, CHR 0x83],
     [CHR 0xE2, CHR 0x80, CHR 0x84], [CHR 0xE2, CHR 0x80, CHR 0x85],
     [CHR 0xE2, CHR 0x80, CHR 0x86], [CHR 0xE2, CHR 0x80, CHR 0x87],
     [CHR 0xE2, CHR 0x80, CHR 0x88], [CHR 0xE2, CHR 0x80, CHR 0x89],
     [CHR 0xE2, CHR 0x80, CHR 0x8A],
     [CHR 0xE2, CHR 0x80, CHR 0xA8], [CHR 0xE2, CHR 0x80, CHR 0xA9],
     [CHR 0xE2, CHR 0x80, CHR 0xAF],
     [CHR 0xE2, CHR 0x81, CHR 0x9F],
     [CHR 0xE3, CHR 0x80, CHR 0x80]]"

definition isSpace :: "string \<Rightarrow> bool" where
  "isSpace e \<longleftrightarrow> e \<in> set spaceRunes"

text \<open>
  The width in bytes of the white space rune at the front of a string, and of the one at
  its end; 0 when that rune is not white space (or the string is empty).
\<close>

definition spaceWidth :: "string \<Rightarrow> nat" where
  "spaceWidth s =
     (if isSpace (take 1 s) then 1
      else if isSpace (take 2 s) then 2
      else if isSpace (take 3 s) then 3
      else 0)"

definition spaceWidthLast :: "string \<Rightarrow> nat" where
  "spaceWidthLast s =
     (if isSpace (drop (length s - 1) s) then 1
      else if isSpace (drop (length s - 2) s) then 2
      else if isSpace (drop (length s - 3) s) then 3
      else 0)"

text \<open>
  \<open>strings.TrimLeftFunc(s, unicode.IsSpace)\<close> and
  \<open>strings.TrimRightFunc(s, unicode.IsSpace)\<close>: drop white space runes from the front
  (from the end) until the rune there is not white space.
\<close>

function TrimLeft :: "string \<Rightarrow> string" where
  "TrimLeft s = (if spaceWidth s = 0 then s else TrimLeft (drop (spaceWidth s) s))"
  by pat_completeness auto
termination
proof (relation "measure length")
  fix s :: string
  assume "spaceWidth s \<noteq> 0"
  then have "s \<noteq> [] \<and> 0 < spaceWidth s"
    by (cases s) (auto simp: spaceWidth_def isSpace_def spaceRunes_def)
  then show "(drop (spaceWidth s) s, s) \<in> measure length"
    by simp
qed simp

function TrimRight :: "string \<Rightarrow> string" where
  "TrimRight s =
     (if spaceWidthLast s = 0 then s else TrimRight (take (length s - spaceWidthLast s) s))"
  by pat_completeness auto
termination
proof (relation "measure length")
  fix s :: string
  assume "spaceWidthLast s \<noteq> 0"
  then have "s \<noteq> [] \<and> 0 < spaceWidthLast s"
    by (cases s) (auto simp: spaceWidthLast_def isSpace_def spaceRunes_def)
  then show "(take (length s - spaceWidthLast s) s, s) \<in> measure length"
    by simp
qed simp

declare TrimLeft.simps [simp del] TrimRight.simps [simp del]

text \<open>\<open>strings.TrimSpace\<close>: all leading and trailing white space removed.\<close>

definition TrimSpace :: "string \<Rightarrow> string" where
  "TrimSpace s = TrimRight (TrimLeft s)"

section \<open>The password file\<close>

text \<open>
  The three errors of the package, which \<open>fmt.Errorf\<close> builds from the messages
  \<open>invalid number of tokens\<close>, \<open>username %q already exists\<close> and
  \<open>user %q does not exist\<close>.
\<close>

datatype error =
    InvalidTokens
  | UsernameExists string
  | UserNotExist string

record passwordFile =
  passwords :: "string \<rightharpoonup> string"

text \<open>
  The loop of \<open>newPasswordFile\<close> over the lines of the input. A blank line is skipped;
  the first line with a number of fields other than two, or with a username already
  stored, ends the loop with its error and no file.
\<close>

fun newPasswordFile_loop :: "string list \<Rightarrow> passwordFile \<Rightarrow> error + passwordFile" where
  "newPasswordFile_loop [] f = Inr f"
| "newPasswordFile_loop (l0 # ls) f =
     (let l = TrimSpace l0 in
      if l = [] then newPasswordFile_loop ls f
      else
        let parts = Split l colon in
        if length parts \<noteq> 2 then Inl InvalidTokens
        else
          let username = TrimSpace (parts ! 0);
              password = TrimSpace (parts ! 1)
          in if passwords f username \<noteq> None then Inl (UsernameExists username)
             else newPasswordFile_loop ls
                    (f\<lparr>passwords := (passwords f)(username \<mapsto> password)\<rparr>))"

definition newPasswordFile :: "string \<Rightarrow> error + passwordFile" where
  "newPasswordFile data =
     newPasswordFile_loop (Split data newline) \<lparr>passwords = Map.empty\<rparr>"

text \<open>
  A \<open>for k, v := range m\<close> loop visits every entry of the map once, in an order that
  the runtime chooses anew for each loop. The order is a parameter of the model:
  \<open>rangeOrder m ks\<close> says that \<open>ks\<close> is such an order for \<open>m\<close>, and
  \<open>mapRange m ks\<close> is the sequence of entries the loop then visits.
\<close>

definition rangeOrder :: "('k \<rightharpoonup> 'v) \<Rightarrow> 'k list \<Rightarrow> bool" where
  "rangeOrder m ks \<longleftrightarrow> distinct ks \<and> set ks = dom m"

definition mapRange :: "('k \<rightharpoonup> 'v) \<Rightarrow> 'k list \<Rightarrow> ('k \<times> 'v) list" where
  "mapRange m ks = List.map_filter (\<lambda>k. map_option (Pair k) (m k)) ks"

definition ListUsers :: "string list \<Rightarrow> passwordFile \<Rightarrow> error + string list" where
  "ListUsers ks f =
     Inr (fold (\<lambda>(username, _) users. users @ [username]) (mapRange (passwords f) ks) [])"

text \<open>
  \<open>DeleteUser\<close> and \<open>SetPassword\<close> change the file in place and return an error
  or \<open>nil\<close>; the model returns the error, if any, together with the file afterwards.
\<close>

definition DeleteUser :: "passwordFile \<Rightarrow> string \<Rightarrow> error option \<times> passwordFile" where
  "DeleteUser f username =
     (if passwords f username = None then (Some (UserNotExist username), f)
      else (None, f\<lparr>passwords := (passwords f)(username := None)\<rparr>))"

definition Bytes :: "string list \<Rightarrow> passwordFile \<Rightarrow> string" where
  "Bytes ks f =
     fold (\<lambda>(user, pass) buf. buf @ (user @ [colon] @ pass @ [newline]))
       (mapRange (passwords f) ks) []"

section \<open>SHA-1 and base64, as the standard library computes them\<close>

type_synonym uint32 = "32 word"

text \<open>\<open>bits.RotateLeft32\<close>, for a rotation by less than 32 bits.\<close>

definition RotateLeft32 :: "uint32 \<Rightarrow> nat \<Rightarrow> uint32" where
  "RotateLeft32 x k = push_bit k x OR drop_bit (32 - k) x"

text \<open>
  The padding that \<open>Sum\<close> appends to a message of \<open>len\<close> bytes: the byte 0x80,
  zero bytes up to 56 modulo 64, and the length in bits as a 64-bit big-endian integer.
\<close>

definition sha1_padding :: "nat \<Rightarrow> string" where
  "sha1_padding len =
     (let t = (if len mod 64 < 56 then 56 - len mod 64 else 64 + 56 - len mod 64);
          bits = (len * 8) mod 2 ^ 64
      in CHR 0x80 # replicate (t - 1) (CHR 0x00)
         @ map (\<lambda>i. char_of (bits div 2 ^ (8 * i))) [7, 6, 5, 4, 3, 2, 1, 0])"

text \<open>The big-endian 32-bit word at offset \<open>j\<close> of a block.\<close>

definition be32 :: "string \<Rightarrow> nat \<Rightarrow> uint32" where
  "be32 p j = push_bit 24 (of_char (p ! j)) OR push_bit 16 (of_char (p ! (j + 1)))
              OR push_bit 8 (of_char (p ! (j + 2))) OR of_char (p ! (j + 3))"

type_synonym sha1_state = "uint32 \<times> uint32 \<times> uint32 \<times> uint32 \<times> uint32"

text \<open>
  Round \<open>i\<close> of the block function, on the 16-word window \<open>w\<close> of the message
  schedule and the working variables \<open>a\<close> to \<open>e\<close>.
\<close>

definition sha1_round ::
  "nat \<Rightarrow> uint32 list \<times> sha1_state \<Rightarrow> uint32 list \<times> sha1_state" where
  "sha1_round i s =
     (case s of (w0, a, b, c, d, e) \<Rightarrow>
        let w = (if i < 16 then w0
                 else w0[i mod 16 :=
                        RotateLeft32 (w0 ! ((i + 13) mod 16) XOR w0 ! ((i + 8) mod 16)
                                      XOR w0 ! ((i + 2) mod 16) XOR w0 ! (i mod 16)) 1]);
            f = (if i < 20 then (b AND c) OR (NOT b AND d)
                 else if i < 40 then b XOR c XOR d
                 else if i < 60 then ((b OR c) AND d) OR (b AND c)
                 else b XOR c XOR d);
            k = (if i < 20 then 0x5A827999
                 else if i < 40 then 0x6ED9EBA1
                 else if i < 60 then 0x8F1BBCDC
                 else 0xCA62C1D6);
            t = RotateLeft32 a 5 + f + e + w ! (i mod 16) + k
        in (w, t, a, RotateLeft32 b 30, c, d))"

definition sha1_block :: "sha1_state \<Rightarrow> string \<Rightarrow> sha1_state" where
  "sha1_block h p =
     (case h of (h0, h1, h2, h3, h4) \<Rightarrow>
        case fold sha1_round [0..<80] (map (\<lambda>i. be32 p (i * 4)) [0..<16], h) of
          (w, a, b, c, d, e) \<Rightarrow> (h0 + a, h1 + b, h2 + c, h3 + d, h4 + e))"

fun sha1_blocks :: "sha1_state \<Rightarrow> string \<Rightarrow> sha1_state" where
  "sha1_blocks h p =
     (if 64 \<le> length p then sha1_blocks (sha1_block h (take 64 p)) (drop 64 p) else h)"

declare sha1_blocks.simps [simp del]

definition put32 :: "uint32 \<Rightarrow> string" where
  "put32 x = map (\<lambda>i. char_of (unat (drop_bit (8 * i) x))) [3, 2, 1, 0]"

text \<open>
  The digest of a message: \<open>sha1.New()\<close>, one \<open>Write\<close> of the message and
  \<open>Sum(nil)\<close>. The 20 bytes are the five state words, big-endian.
\<close>

definition sha1_Sum :: "string \<Rightarrow> string" where
  "sha1_Sum msg =
     (case sha1_blocks (0x67452301, 0xEFCDAB89, 0x98BADCFE, 0x10325476, 0xC3D2E1F0)
             (msg @ sha1_padding (length msg)) of
        (h0, h1, h2, h3, h4) \<Rightarrow> put32 h0 @ put32 h1 @ put32 h2 @ put32 h3 @ put32 h4)"

text \<open>
  \<open>base64.StdEncoding.EncodeToString\<close>: the standard alphabet, three bytes to four
  characters, the last group padded with \<open>=\<close>.
\<close>

definition encodeStd :: string where
  "encodeStd = ''ABCDEFGHIJKLMNOPQRSTUVWXYZabcdefghijklmnopqrstuvwxyz0123456789+/''"

fun EncodeToString :: "string \<Rightarrow> string" where
  "EncodeToString (b0 # b1 # b2 # src) =
     (let val = of_char b0 * 65536 + of_char b1 * 256 + (of_char b2 :: nat)
      in [encodeStd ! (val div 262144 mod 64), encodeStd ! (val div 4096 mod 64),
          encodeStd ! (val div 64 mod 64), encodeStd ! (val mod 64)] @ EncodeToString src)"
| "EncodeToString [b0, b1] =
     (let val = of_char b0 * 65536 + (of_char b1 :: nat) * 256
      in [encodeStd ! (val div 262144 mod 64), encodeStd ! (val div 4096 mod 64),
          encodeStd ! (val div 64 mod 64), CHR ''=''])"
| "EncodeToString [b0] =
     (let val = (of_char b0 :: nat) * 65536
      in [encodeStd ! (val div 262144 mod 64), encodeStd ! (val div 4096 mod 64),
          CHR ''='', CHR ''=''])"
| "EncodeToString [] = []"

text \<open>
  \<open>SetPassword\<close>. \<open>Write\<close> on a SHA-1 hash returns no error for any input, so the
  early return of the source is never taken and the model has no error branch.
\<close>

definition SetPassword ::
  "passwordFile \<Rightarrow> string \<Rightarrow> string \<Rightarrow> error option \<times> passwordFile" where
  "SetPassword f username password =
     (None, f\<lparr>passwords :=
               (passwords f)(username \<mapsto> ''{SHA}'' @ EncodeToString (sha1_Sum password))\<rparr>)"

section \<open>The lines of an input, as the specification reads them\<close>

text \<open>
  The lines that count: the input split on newline, each line trimmed, the blank ones
  left out. A line is well formed when it splits on the colon into two fields;
  \<open>lineUser\<close> is its first field trimmed and \<open>lineEntry\<close> the pair of both
  fields trimmed. \<open>wellFormedPrefix\<close> is the run of well-formed lines before the
  first malformed one.
\<close>

definition nonblank :: "string list \<Rightarrow> string list" where
  "nonblank ls = filter (\<lambda>l. l \<noteq> []) (map TrimSpace ls)"

definition nonblankLines :: "string \<Rightarrow> string list" where
  "nonblankLines data = nonblank (Split data newline)"

definition twoFields :: "string \<Rightarrow> bool" where
  "twoFields l \<longleftrightarrow> length (Split l colon) = 2"

definition lineUser :: "string \<Rightarrow> string" where
  "lineUser l = TrimSpace (Split l colon ! 0)"

definition lineEntry :: "string \<Rightarrow> string \<times> string" where
  "lineEntry l = (TrimSpace (Split l colon ! 0), TrimSpace (Split l colon ! 1))"

definition wellFormedPrefix :: "string list \<Rightarrow> string list" where
  "wellFormedPrefix ls = takeWhile twoFields ls"

text \<open>
  \<open>fresh f ls\<close>: the usernames of the lines \<open>ls\<close> differ from each other and from
  the usernames already in the file \<open>f\<close>.
\<close>

definition fresh :: "passwordFile \<Rightarrow> string list \<Rightarrow> bool" where
  "fresh f ls \<longleftrightarrow>
     distinct (map lineUser ls) \<and> lineUser ` set ls \<inter> dom (passwords f) = {}"

section \<open>The entries of a file, as the specification reads them\<close>

text \<open>
  A well-formed entry: username and credential are not empty, contain no colon and no
  newline, and are not changed by trimming. \<open>entryLines ks f\<close> are the lines
  \<open>username:credential\<close> of the entries of \<open>f\<close>, in the order \<open>ks\<close>.
\<close>

definition wellFormedEntry :: "string \<Rightarrow> string \<Rightarrow> bool" where
  "wellFormedEntry u p \<longleftrightarrow>
     u \<noteq> [] \<and> p \<noteq> [] \<and> colon \<notin> set u \<and> newline \<notin> set u
     \<and> colon \<notin> set p \<and> newline \<notin> set p \<and> TrimSpace u = u \<and> TrimSpace p = p"

definition entryLines :: "string list \<Rightarrow> passwordFile \<Rightarrow> string list" where
  "entryLines ks f = map (\<lambda>(user, pass). user @ [colon] @ pass) (mapRange (passwords f) ks)"

section \<open>Iterating over the map\<close>

lemma fst_mapRange: "map fst (mapRange m ks) = filter (\<lambda>k. m k \<noteq> None) ks"
  by (induction ks) (auto simp: mapRange_def List.map_filter_def)

lemma mapRange_eq_map:
  "set ks \<subseteq> dom m \<Longrightarrow> mapRange m ks = map (\<lambda>k. (k, the (m k))) ks"
  by (induction ks) (auto simp: mapRange_def List.map_filter_def)

lemma ListUsers_fold:
  "fold (\<lambda>(username, _) users. users @ [username]) kvs acc = acc @ map fst kvs"
  by (induction kvs arbitrary: acc) (auto split: prod.splits)

lemma ListUsers_eq: "ListUsers ks f = Inr (filter (\<lambda>k. passwords f k \<noteq> None) ks)"
  by (simp add: ListUsers_def ListUsers_fold fst_mapRange)

section \<open>Trimming\<close>

lemma isSpace_length: "isSpace e \<Longrightarrow> 0 < length e \<and> length e \<le> 3"
  by (auto simp: isSpace_def spaceRunes_def)

lemma isSpace_colon: "isSpace e \<Longrightarrow> colon \<notin> set e"
  by (auto simp: isSpace_def spaceRunes_def colon_def)

lemma isSpace_newline: "isSpace e \<Longrightarrow> e = [newline] \<or> newline \<notin> set e"
  by (auto simp: isSpace_def spaceRunes_def newline_def)

lemma spaceWidth_Nil: "spaceWidth [] = 0"
  by (simp add: spaceWidth_def isSpace_def spaceRunes_def)

lemma spaceWidthLast_Nil: "spaceWidthLast [] = 0"
  by (simp add: spaceWidthLast_def isSpace_def spaceRunes_def)

lemma spaceWidth_isSpace: "spaceWidth s \<noteq> 0 \<Longrightarrow> isSpace (take (spaceWidth s) s)"
  by (auto simp: spaceWidth_def split: if_splits)

lemma spaceWidthLast_isSpace:
  "spaceWidthLast s \<noteq> 0 \<Longrightarrow> isSpace (drop (length s - spaceWidthLast s) s)"
  by (auto simp: spaceWidthLast_def split: if_splits)

lemma TrimLeft_Nil: "TrimLeft [] = []"
  by (subst TrimLeft.simps) (simp add: spaceWidth_Nil)

lemma TrimRight_Nil: "TrimRight [] = []"
  by (subst TrimRight.simps) (simp add: spaceWidthLast_Nil)

lemma TrimSpace_Nil: "TrimSpace [] = []"
  by (simp add: TrimSpace_def TrimLeft_Nil TrimRight_Nil)

lemma TrimLeft_id: "spaceWidth s = 0 \<Longrightarrow> TrimLeft s = s"
  by (subst TrimLeft.simps) simp

lemma TrimRight_id: "spaceWidthLast s = 0 \<Longrightarrow> TrimRight s = s"
  by (subst TrimRight.simps) simp

lemma TrimLeft_step: "spaceWidth s \<noteq> 0 \<Longrightarrow> TrimLeft s = TrimLeft (drop (spaceWidth s) s)"
  by (subst TrimLeft.simps) simp

lemma TrimRight_step:
  "spaceWidthLast s \<noteq> 0 \<Longrightarrow> TrimRight s = TrimRight (take (length s - spaceWidthLast s) s)"
  by (subst TrimRight.simps) simp

lemma length_TrimLeft: "length (TrimLeft s) \<le> length s"
proof (induction s rule: TrimLeft.induct)
  case (1 s)
  show ?case
  proof (cases "spaceWidth s = 0")
    case True
    then show ?thesis by (simp add: TrimLeft_id)
  next
    case False
    with 1 have "length (TrimLeft (drop (spaceWidth s) s)) \<le> length (drop (spaceWidth s) s)"
      by simp
    with False show ?thesis by (simp add: TrimLeft_step)
  qed
qed

lemma length_TrimRight: "length (TrimRight s) \<le> length s"
proof (induction s rule: TrimRight.induct)
  case (1 s)
  show ?case
  proof (cases "spaceWidthLast s = 0")
    case True
    then show ?thesis by (simp add: TrimRight_id)
  next
    case False
    with 1 have "length (TrimRight (take (length s - spaceWidthLast s) s))
        \<le> length (take (length s - spaceWidthLast s) s)"
      by simp
    with False show ?thesis by (simp add: TrimRight_step)
  qed
qed

lemma TrimSpace_fixed:
  assumes "TrimSpace s = s"
  shows "spaceWidth s = 0" and "spaceWidthLast s = 0"
proof -
  show l: "spaceWidth s = 0"
  proof (rule ccontr)
    assume n: "spaceWidth s \<noteq> 0"
    then have "s \<noteq> []" using spaceWidth_Nil by auto
    have "length (TrimSpace s) \<le> length (TrimLeft s)"
      by (simp add: TrimSpace_def length_TrimRight)
    also have "\<dots> = length (TrimLeft (drop (spaceWidth s) s))"
      using n by (simp add: TrimLeft_step)
    also have "\<dots> \<le> length (drop (spaceWidth s) s)"
      by (rule length_TrimLeft)
    also have "\<dots> < length s"
      using n \<open>s \<noteq> []\<close> by simp
    finally show False using assms by simp
  qed
  show "spaceWidthLast s = 0"
  proof (rule ccontr)
    assume n: "spaceWidthLast s \<noteq> 0"
    then have "s \<noteq> []" using spaceWidthLast_Nil by auto
    have "TrimSpace s = TrimRight s"
      using l by (simp add: TrimSpace_def TrimLeft_id)
    then have "length (TrimSpace s) = length (TrimRight (take (length s - spaceWidthLast s) s))"
      using n by (simp add: TrimRight_step)
    also have "\<dots> \<le> length (take (length s - spaceWidthLast s) s)"
      by (rule length_TrimRight)
    also have "\<dots> < length s"
      using n \<open>s \<noteq> []\<close> by simp
    finally show False using assms by simp
  qed
qed

lemma isSpace_take_append:
  assumes "isSpace (take k (u @ colon # p))"
  shows "k \<le> length u \<and> isSpace (take k u)"
proof -
  have "colon \<notin> set (take k (u @ colon # p))"
    using assms by (rule isSpace_colon)
  then have "k \<le> length u"
    by (cases "k \<le> length u") (auto simp: take_Cons' split: if_splits)
  with assms show ?thesis by simp
qed

lemma isSpace_drop_append:
  assumes "isSpace (drop (length (u @ colon # p) - k) (u @ colon # p))"
  shows "k \<le> length p \<and> isSpace (drop (length p - k) p)"
proof -
  have c: "colon \<notin> set (drop (length (u @ colon # p) - k) (u @ colon # p))"
    using assms by (rule isSpace_colon)
  have "k \<le> length p"
  proof (rule ccontr)
    assume "\<not> k \<le> length p"
    then have "length (u @ colon # p) - k \<le> length u" by simp
    then have "colon \<in> set (drop (length (u @ colon # p) - k) (u @ colon # p))"
      by (simp add: drop_append)
    with c show False by simp
  qed
  moreover from this have "drop (length (u @ colon # p) - k) (u @ colon # p) = drop (length p - k) p"
    by (simp add: drop_append drop_Cons' )
  ultimately show ?thesis using assms by simp
qed

lemma spaceWidth_append_colon:
  assumes "spaceWidth u = 0" and "u \<noteq> []"
  shows "spaceWidth (u @ colon # p) = 0"
proof -
  define s where "s = u @ colon # p"
  have n: "\<not> isSpace (take k s)" if "\<not> isSpace (take k u)" for k
    using that isSpace_take_append [of k u p] unfolding s_def by blast
  from assms(1) have "\<not> isSpace (take 1 u)" "\<not> isSpace (take 2 u)" "\<not> isSpace (take 3 u)"
    unfolding spaceWidth_def by (simp_all split: if_splits)
  then have "\<not> isSpace (take 1 s)" "\<not> isSpace (take 2 s)" "\<not> isSpace (take 3 s)"
    by (simp_all only: n not_False_eq_True)
  then have "spaceWidth s = 0"
    unfolding spaceWidth_def by (simp only: if_False)
  then show ?thesis by (simp only: s_def)
qed

lemma spaceWidthLast_colon_append:
  assumes "spaceWidthLast p = 0" and "p \<noteq> []"
  shows "spaceWidthLast (u @ colon # p) = 0"
proof -
  define s where "s = u @ colon # p"
  have n: "\<not> isSpace (drop (length s - k) s)" if "\<not> isSpace (drop (length p - k) p)" for k
    using that isSpace_drop_append [of u p k] unfolding s_def by blast
  from assms(1)
  have "\<not> isSpace (drop (length p - 1) p)" "\<not> isSpace (drop (length p - 2) p)"
    "\<not> isSpace (drop (length p - 3) p)"
    unfolding spaceWidthLast_def by (simp_all split: if_splits)
  then have "\<not> isSpace (drop (length s - 1) s)" "\<not> isSpace (drop (length s - 2) s)"
    "\<not> isSpace (drop (length s - 3) s)"
    by (simp_all only: n not_False_eq_True)
  then have "spaceWidthLast s = 0"
    unfolding spaceWidthLast_def by (simp only: if_False)
  then show ?thesis by (simp only: s_def)
qed

lemma TrimSpace_line:
  assumes "TrimSpace u = u" and "TrimSpace p = p" and "u \<noteq> []" and "p \<noteq> []"
  shows "TrimSpace (u @ colon # p) = u @ colon # p"
proof -
  have "spaceWidth (u @ colon # p) = 0"
    using TrimSpace_fixed(1) [OF assms(1)] assms(3) by (rule spaceWidth_append_colon)
  moreover have "spaceWidthLast (u @ colon # p) = 0"
    using TrimSpace_fixed(2) [OF assms(2)] assms(4) by (rule spaceWidthLast_colon_append)
  ultimately show ?thesis
    by (simp add: TrimSpace_def TrimLeft_id TrimRight_id)
qed

section \<open>Splitting\<close>

lemma Split_not_Nil: "Split s sep \<noteq> []"
  by (induction s) (auto split: list.splits)

lemma Split_no_sep: "sep \<notin> set s \<Longrightarrow> Split s sep = [s]"
  by (induction s) auto

lemma Split_append_sep: "sep \<notin> set s \<Longrightarrow> Split (s @ sep # t) sep = s # Split t sep"
  by (induction s) auto

lemma Split_append_no_sep:
  "sep \<notin> set s \<Longrightarrow> Split (s @ t) sep = (s @ hd (Split t sep)) # tl (Split t sep)"
proof (induction s)
  case Nil
  then show ?case using Split_not_Nil [of t sep] by simp
next
  case (Cons c s)
  then show ?case by auto
qed

lemma Split_fields: "sep \<notin> set u \<Longrightarrow> sep \<notin> set p \<Longrightarrow> Split (u @ sep # p) sep = [u, p]"
  by (simp add: Split_append_sep Split_no_sep)

lemma Split_lines:
  "\<forall>l\<in>set ls. sep \<notin> set l \<Longrightarrow> Split (concat (map (\<lambda>l. l @ [sep]) ls)) sep = ls @ [[]]"
  by (induction ls) (auto simp: Split_append_sep)

section \<open>The loop of the decoder\<close>

lemma nonblank_Nil: "nonblank [] = []"
  by (simp add: nonblank_def)

lemma nonblank_Cons:
  "nonblank (l # ls) = (if TrimSpace l = [] then nonblank ls else TrimSpace l # nonblank ls)"
  by (simp add: nonblank_def)

lemma loop_blank: "TrimSpace l0 = [] \<Longrightarrow> newPasswordFile_loop (l0 # ls) f = newPasswordFile_loop ls f"
  by simp

lemma loop_malformed:
  "TrimSpace l0 \<noteq> [] \<Longrightarrow> \<not> twoFields (TrimSpace l0) \<Longrightarrow>
   newPasswordFile_loop (l0 # ls) f = Inl InvalidTokens"
  by (simp add: twoFields_def Let_def)

lemma loop_duplicate:
  "TrimSpace l0 \<noteq> [] \<Longrightarrow> twoFields (TrimSpace l0) \<Longrightarrow>
   passwords f (lineUser (TrimSpace l0)) \<noteq> None \<Longrightarrow>
   newPasswordFile_loop (l0 # ls) f = Inl (UsernameExists (lineUser (TrimSpace l0)))"
  by (simp add: twoFields_def lineUser_def Let_def)

lemma loop_store:
  "TrimSpace l0 \<noteq> [] \<Longrightarrow> twoFields (TrimSpace l0) \<Longrightarrow>
   passwords f (lineUser (TrimSpace l0)) = None \<Longrightarrow>
   newPasswordFile_loop (l0 # ls) f =
     newPasswordFile_loop ls
       (f\<lparr>passwords := (passwords f)(lineUser (TrimSpace l0) \<mapsto> snd (lineEntry (TrimSpace l0)))\<rparr>)"
  by (simp add: twoFields_def lineUser_def lineEntry_def Let_def)

lemma fst_lineEntry: "fst (lineEntry l) = lineUser l"
  by (simp add: lineEntry_def lineUser_def)

lemma loop_success:
  "fresh f (nonblank ls) \<Longrightarrow> \<forall>l\<in>set (nonblank ls). twoFields l \<Longrightarrow>
   newPasswordFile_loop ls f =
     Inr (f\<lparr>passwords := passwords f ++ map_of (map lineEntry (nonblank ls))\<rparr>)"
proof (induction ls arbitrary: f)
  case Nil
  then show ?case by (simp add: nonblank_Nil)
next
  case (Cons l0 ls)
  show ?case
  proof (cases "TrimSpace l0 = []")
    case True
    with Cons show ?thesis by (simp add: nonblank_Cons)
  next
    case False
    let ?l = "TrimSpace l0"
    let ?f = "f\<lparr>passwords := (passwords f)(lineUser ?l \<mapsto> snd (lineEntry ?l))\<rparr>"
    from False Cons.prems have nb: "nonblank (l0 # ls) = ?l # nonblank ls"
      and two: "twoFields ?l" and all: "\<forall>l\<in>set (nonblank ls). twoFields l"
      by (simp_all add: nonblank_Cons)
    from Cons.prems(1) nb have new: "passwords f (lineUser ?l) = None"
      and notin: "lineUser ?l \<notin> lineUser ` set (nonblank ls)"
      and fr: "fresh ?f (nonblank ls)"
      by (auto simp: fresh_def)
    have "newPasswordFile_loop (l0 # ls) f = newPasswordFile_loop ls ?f"
      using False two new by (rule loop_store)
    also have "\<dots> = Inr (?f\<lparr>passwords := passwords ?f ++ map_of (map lineEntry (nonblank ls))\<rparr>)"
      using fr all by (rule Cons.IH)
    also have "passwords ?f ++ map_of (map lineEntry (nonblank ls))
        = passwords f ++ map_of (map lineEntry (nonblank (l0 # ls)))"
    proof -
      have "lineUser ?l \<notin> dom (map_of (map lineEntry (nonblank ls)))"
        using notin by (simp add: dom_map_of_conv_image_fst image_image fst_lineEntry)
      then show ?thesis
        unfolding nb
        by (simp add: map_add_upd_left lineEntry_def lineUser_def)
    qed
    finally show ?thesis by simp
  qed
qed

lemma loop_invalid:
  "fresh f (wellFormedPrefix (nonblank ls)) \<Longrightarrow> wellFormedPrefix (nonblank ls) \<noteq> nonblank ls \<Longrightarrow>
   newPasswordFile_loop ls f = Inl InvalidTokens"
proof (induction ls arbitrary: f)
  case Nil
  then show ?case by (simp add: nonblank_Nil wellFormedPrefix_def)
next
  case (Cons l0 ls)
  show ?case
  proof (cases "TrimSpace l0 = []")
    case True
    with Cons show ?thesis by (simp add: nonblank_Cons)
  next
    case False
    let ?l = "TrimSpace l0"
    let ?f = "f\<lparr>passwords := (passwords f)(lineUser ?l \<mapsto> snd (lineEntry ?l))\<rparr>"
    from False have nb: "nonblank (l0 # ls) = ?l # nonblank ls"
      by (simp add: nonblank_Cons)
    show ?thesis
    proof (cases "twoFields ?l")
      case no: False
      with False show ?thesis by (rule loop_malformed)
    next
      case two: True
      then have pre: "wellFormedPrefix (nonblank (l0 # ls)) = ?l # wellFormedPrefix (nonblank ls)"
        by (simp add: nb wellFormedPrefix_def)
      from Cons.prems(1) pre have new: "passwords f (lineUser ?l) = None"
        and fr: "fresh ?f (wellFormedPrefix (nonblank ls))"
        by (auto simp: fresh_def)
      from Cons.prems(2) pre nb have ne: "wellFormedPrefix (nonblank ls) \<noteq> nonblank ls"
        by simp
      have "newPasswordFile_loop (l0 # ls) f = newPasswordFile_loop ls ?f"
        using False two new by (rule loop_store)
      also have "\<dots> = Inl InvalidTokens"
        using fr ne by (rule Cons.IH)
      finally show ?thesis .
    qed
  qed
qed

lemma loop_exists:
  "\<not> fresh f (wellFormedPrefix (nonblank ls)) \<Longrightarrow>
   \<exists>u. newPasswordFile_loop ls f = Inl (UsernameExists u)"
proof (induction ls arbitrary: f)
  case Nil
  then show ?case by (simp add: nonblank_Nil wellFormedPrefix_def fresh_def)
next
  case (Cons l0 ls)
  show ?case
  proof (cases "TrimSpace l0 = []")
    case True
    with Cons show ?thesis by (simp add: nonblank_Cons)
  next
    case False
    let ?l = "TrimSpace l0"
    let ?f = "f\<lparr>passwords := (passwords f)(lineUser ?l \<mapsto> snd (lineEntry ?l))\<rparr>"
    from False have nb: "nonblank (l0 # ls) = ?l # nonblank ls"
      by (simp add: nonblank_Cons)
    show ?thesis
    proof (cases "twoFields ?l")
      case no: False
      with Cons.prems nb show ?thesis by (simp add: wellFormedPrefix_def fresh_def)
    next
      case two: True
      then have pre: "wellFormedPrefix (nonblank (l0 # ls)) = ?l # wellFormedPrefix (nonblank ls)"
        by (simp add: nb wellFormedPrefix_def)
      show ?thesis
      proof (cases "passwords f (lineUser ?l) = None")
        case dup: False
        from loop_duplicate [OF False two dup] show ?thesis by blast
      next
        case new: True
        from Cons.prems pre new have fr: "\<not> fresh ?f (wellFormedPrefix (nonblank ls))"
          by (auto simp: fresh_def domIff)
        have "newPasswordFile_loop (l0 # ls) f = newPasswordFile_loop ls ?f"
          using False two new by (rule loop_store)
        with Cons.IH [OF fr] show ?thesis by simp
      qed
    qed
  qed
qed

section \<open>Decoding\<close>

lemma fresh_empty: "fresh \<lparr>passwords = Map.empty\<rparr> ls \<longleftrightarrow> distinct (map lineUser ls)"
  by (simp add: fresh_def)

lemma wellFormedPrefix_all:
  "wellFormedPrefix ls = ls \<longleftrightarrow> (\<forall>l\<in>set ls. twoFields l)"
  by (simp add: wellFormedPrefix_def takeWhile_eq_all_conv)

lemma decode_success:
  assumes "distinct (map lineUser (nonblankLines data))"
    and "\<forall>l\<in>set (nonblankLines data). twoFields l"
  shows "newPasswordFile data =
           Inr \<lparr>passwords = map_of (map lineEntry (nonblankLines data))\<rparr>"
  using assms loop_success [of "\<lparr>passwords = Map.empty\<rparr>" "Split data newline"]
  by (simp add: newPasswordFile_def nonblankLines_def fresh_empty)

lemma decode_invalid:
  assumes "distinct (map lineUser (wellFormedPrefix (nonblankLines data)))"
    and "\<exists>l\<in>set (nonblankLines data). \<not> twoFields l"
  shows "newPasswordFile data = Inl InvalidTokens"
  using assms loop_invalid [of "\<lparr>passwords = Map.empty\<rparr>" "Split data newline"]
  by (simp add: newPasswordFile_def nonblankLines_def fresh_empty wellFormedPrefix_all)

lemma decode_exists:
  assumes "\<not> distinct (map lineUser (wellFormedPrefix (nonblankLines data)))"
  shows "\<exists>u. newPasswordFile data = Inl (UsernameExists u)"
  using assms loop_exists [of "\<lparr>passwords = Map.empty\<rparr>" "Split data newline"]
  by (simp add: newPasswordFile_def nonblankLines_def fresh_empty)

lemma distinct_wellFormedPrefix:
  "distinct (map lineUser ls) \<Longrightarrow> distinct (map lineUser (wellFormedPrefix ls))"
  unfolding wellFormedPrefix_def
  by (metis distinct_append map_append takeWhile_dropWhile_id)

lemma decode_Inr:
  assumes "newPasswordFile data = Inr f"
  shows "distinct (map lineUser (nonblankLines data))"
    and "\<forall>l\<in>set (nonblankLines data). twoFields l"
    and "f = \<lparr>passwords = map_of (map lineEntry (nonblankLines data))\<rparr>"
proof -
  have d: "distinct (map lineUser (wellFormedPrefix (nonblankLines data)))"
    using assms decode_exists [of data] by auto
  then show a: "\<forall>l\<in>set (nonblankLines data). twoFields l"
    using assms decode_invalid [of data] by auto
  then have "wellFormedPrefix (nonblankLines data) = nonblankLines data"
    by (simp add: wellFormedPrefix_all)
  with d show "distinct (map lineUser (nonblankLines data))" by simp
  with a assms show "f = \<lparr>passwords = map_of (map lineEntry (nonblankLines data))\<rparr>"
    by (simp add: decode_success)
qed

lemma decode_error:
  "(case newPasswordFile data of Inl e \<Rightarrow> Some e | Inr f \<Rightarrow> None) = Some e \<Longrightarrow>
   newPasswordFile data = Inl e"
  by (simp split: sum.splits)

text \<open>
  A malformed line does not always give the error \<open>invalid number of tokens\<close>: the
  loop stops at the first failing line, and in \<open>a:x\<close>, \<open>a:y\<close>, \<open>b\<close> the
  repeated username comes first.
\<close>

theorem decode_malformed_line_counterexample:
  "''b'' \<in> set (nonblankLines ''a:x\<newline>a:y\<newline>b\<newline>'')
   \<and> length (Split ''b'' colon) \<noteq> 2
   \<and> newPasswordFile ''a:x\<newline>a:y\<newline>b\<newline>'' = Inl (UsernameExists ''a'')
   \<and> newPasswordFile ''a:x\<newline>a:y\<newline>b\<newline>'' \<noteq> Inl InvalidTokens"
proof -
  have "(case newPasswordFile ''a:x\<newline>a:y\<newline>b\<newline>'' of Inl e \<Rightarrow> Some e | Inr f \<Rightarrow> None)
          = Some (UsernameExists ''a'')"
    by code_simp
  then have "newPasswordFile ''a:x\<newline>a:y\<newline>b\<newline>'' = Inl (UsernameExists ''a'')"
    by (rule decode_error)
  moreover have "''b'' \<in> set (nonblankLines ''a:x\<newline>a:y\<newline>b\<newline>'')"
    by code_simp
  moreover have "length (Split ''b'' colon) \<noteq> 2"
    by code_simp
  ultimately show ?thesis by simp
qed

text \<open>
  C3, as the code has it. For every input with a non-blank line that does not split on
  the colon into two fields, \<open>newPasswordFile\<close> returns an error and no file. The
  error is \<open>invalid number of tokens\<close> when the usernames of the well-formed lines
  before the first malformed line are distinct, and \<open>username ... already exists\<close>
  when one of them repeats.
\<close>

theorem decode_malformed_line:
  assumes "l \<in> set (nonblankLines data)" and "\<not> twoFields l"
  shows "(\<exists>e. newPasswordFile data = Inl e)
    \<and> (distinct (map lineUser (wellFormedPrefix (nonblankLines data)))
         \<longrightarrow> newPasswordFile data = Inl InvalidTokens)
    \<and> (\<not> distinct (map lineUser (wellFormedPrefix (nonblankLines data)))
         \<longrightarrow> (\<exists>u. newPasswordFile data = Inl (UsernameExists u)))"
proof (cases "distinct (map lineUser (wellFormedPrefix (nonblankLines data)))")
  case True
  with assms have "newPasswordFile data = Inl InvalidTokens"
    by (intro decode_invalid) auto
  with True show ?thesis by simp
next
  case False
  then obtain u where "newPasswordFile data = Inl (UsernameExists u)"
    using decode_exists by blast
  with False show ?thesis by simp
qed

theorem decode_malformed_line_witness:
  "''alice:x:y'' \<in> set (nonblankLines ''alice:x:y\<newline>'')
   \<and> \<not> twoFields ''alice:x:y''
   \<and> distinct (map lineUser (wellFormedPrefix (nonblankLines ''alice:x:y\<newline>'')))
   \<and> newPasswordFile ''alice:x:y\<newline>'' = Inl InvalidTokens"
proof -
  have a: "''alice:x:y'' \<in> set (nonblankLines ''alice:x:y\<newline>'')"
    by code_simp
  have b: "\<not> twoFields ''alice:x:y''"
    by code_simp
  have c: "distinct (map lineUser (wellFormedPrefix (nonblankLines ''alice:x:y\<newline>'')))"
    by code_simp
  from decode_malformed_line [OF a b] a b c show ?thesis by blast
qed

text \<open>
  A repeated username does not always give the error \<open>username ... already exists\<close>:
  in \<open>b\<close>, \<open>a:x\<close>, \<open>a:y\<close> the malformed line comes first.
\<close>

theorem decode_duplicate_counterexample:
  "\<not> distinct (map lineUser (nonblankLines ''b\<newline>a:x\<newline>a:y\<newline>''))
   \<and> newPasswordFile ''b\<newline>a:x\<newline>a:y\<newline>'' = Inl InvalidTokens
   \<and> newPasswordFile ''b\<newline>a:x\<newline>a:y\<newline>'' \<noteq> Inl (UsernameExists ''a'')"
proof -
  have "(case newPasswordFile ''b\<newline>a:x\<newline>a:y\<newline>'' of Inl e \<Rightarrow> Some e | Inr f \<Rightarrow> None)
          = Some InvalidTokens"
    by code_simp
  then have "newPasswordFile ''b\<newline>a:x\<newline>a:y\<newline>'' = Inl InvalidTokens"
    by (rule decode_error)
  moreover have "\<not> distinct (map lineUser (nonblankLines ''b\<newline>a:x\<newline>a:y\<newline>''))"
    by code_simp
  ultimately show ?thesis by simp
qed

text \<open>
  C4, as the code has it. For every input in which a username appears on two or more
  non-blank lines, \<open>newPasswordFile\<close> returns an error and no file. The error is
  \<open>username ... already exists\<close> when the username repeats among the well-formed
  lines before the first malformed line, and \<open>invalid number of tokens\<close> otherwise.
\<close>

theorem decode_duplicate_username:
  assumes "\<not> distinct (map lineUser (nonblankLines data))"
  shows "(\<exists>e. newPasswordFile data = Inl e)
    \<and> (\<not> distinct (map lineUser (wellFormedPrefix (nonblankLines data)))
         \<longrightarrow> (\<exists>u. newPasswordFile data = Inl (UsernameExists u)))
    \<and> (distinct (map lineUser (wellFormedPrefix (nonblankLines data)))
         \<longrightarrow> newPasswordFile data = Inl InvalidTokens)"
proof (cases "distinct (map lineUser (wellFormedPrefix (nonblankLines data)))")
  case True
  with assms have "wellFormedPrefix (nonblankLines data) \<noteq> nonblankLines data"
    by auto
  then have "\<exists>l\<in>set (nonblankLines data). \<not> twoFields l"
    by (simp add: wellFormedPrefix_all)
  with True have "newPasswordFile data = Inl InvalidTokens"
    by (rule decode_invalid)
  with True show ?thesis by simp
next
  case False
  then obtain u where "newPasswordFile data = Inl (UsernameExists u)"
    using decode_exists by blast
  with False show ?thesis by simp
qed

theorem decode_duplicate_username_witness:
  "\<not> distinct (map lineUser (nonblankLines ''alice:x\<newline>alice:y\<newline>''))
   \<and> \<not> distinct (map lineUser (wellFormedPrefix (nonblankLines ''alice:x\<newline>alice:y\<newline>'')))
   \<and> newPasswordFile ''alice:x\<newline>alice:y\<newline>'' = Inl (UsernameExists ''alice'')"
proof -
  have a: "\<not> distinct (map lineUser (nonblankLines ''alice:x\<newline>alice:y\<newline>''))"
    by code_simp
  have b: "\<not> distinct (map lineUser (wellFormedPrefix (nonblankLines ''alice:x\<newline>alice:y\<newline>'')))"
    by code_simp
  have "(case newPasswordFile ''alice:x\<newline>alice:y\<newline>'' of Inl e \<Rightarrow> Some e | Inr f \<Rightarrow> None)
          = Some (UsernameExists ''alice'')"
    by code_simp
  then have c: "newPasswordFile ''alice:x\<newline>alice:y\<newline>'' = Inl (UsernameExists ''alice'')"
    by (rule decode_error)
  from decode_duplicate_username [OF a] a b c show ?thesis by blast
qed

text \<open>
  C9. When \<open>newPasswordFile\<close> succeeds, the file is the map of the entries of the
  non-blank lines: the input split on newline, each line trimmed, blank lines left out,
  each remaining line split on the colon into two fields, both trimmed. The usernames
  are distinct, so the file has one entry for each non-blank line.
\<close>

theorem decode_entries:
  assumes "newPasswordFile data = Inr f"
  shows "passwords f = map_of (map lineEntry (nonblankLines data))
    \<and> (\<forall>l\<in>set (nonblankLines data). twoFields l)
    \<and> distinct (map fst (map lineEntry (nonblankLines data)))
    \<and> card (dom (passwords f)) = length (nonblankLines data)"
proof -
  note r = decode_Inr [OF assms]
  have d: "distinct (map fst (map lineEntry (nonblankLines data)))"
    using r(1) by (simp add: comp_def fst_lineEntry)
  have "dom (passwords f) = set (map fst (map lineEntry (nonblankLines data)))"
    using r(3) by (simp add: dom_map_of_conv_image_fst image_image)
  then have "card (dom (passwords f)) = length (map fst (map lineEntry (nonblankLines data)))"
    using d by (simp only: distinct_card)
  with r d show ?thesis by simp
qed

theorem decode_entries_witness:
  "newPasswordFile ''alice: x \<newline>\<newline>  bob:y\<newline>''
     = Inr \<lparr>passwords = map_of [(''alice'', ''x''), (''bob'', ''y'')]\<rparr>
   \<and> nonblankLines ''alice: x \<newline>\<newline>  bob:y\<newline>'' = [''alice: x'', ''bob:y'']
   \<and> map lineEntry [''alice: x'', ''bob:y''] = [(''alice'', ''x''), (''bob'', ''y'')]
   \<and> card (dom (map_of [(''alice'', ''x''), (''bob'', ''y'')])) = length [''alice: x'', ''bob:y'']"
proof -
  let ?D = "''alice: x \<newline>\<newline>  bob:y\<newline>''"
  have n: "nonblankLines ?D = [''alice: x'', ''bob:y'']"
    by code_simp
  have e: "map lineEntry [''alice: x'', ''bob:y''] = [(''alice'', ''x''), (''bob'', ''y'')]"
    by code_simp
  have "distinct (map lineUser [''alice: x'', ''bob:y''])"
    by code_simp
  then have d: "distinct (map lineUser (nonblankLines ?D))"
    by (simp only: n)
  have "\<forall>l\<in>set [''alice: x'', ''bob:y'']. twoFields l"
    by code_simp
  then have t: "\<forall>l\<in>set (nonblankLines ?D). twoFields l"
    by (simp only: n)
  have "newPasswordFile ?D = Inr \<lparr>passwords = map_of (map lineEntry (nonblankLines ?D))\<rparr>"
    using d t by (rule decode_success)
  then have a: "newPasswordFile ?D = Inr \<lparr>passwords = map_of [(''alice'', ''x''), (''bob'', ''y'')]\<rparr>"
    by (simp only: n e)
  from decode_entries [OF a]
  have "card (dom (passwords \<lparr>passwords = map_of [(''alice'', ''x''), (''bob'', ''y'')]\<rparr>))
          = length (nonblankLines ?D)"
    by (elim conjE)
  then have c: "card (dom (map_of [(''alice'', ''x''), (''bob'', ''y'')])) = length [''alice: x'', ''bob:y'']"
    by (simp only: n passwordFile.simps)
  from a n e c show ?thesis by (intro conjI)
qed

section \<open>Encoding\<close>

lemma Bytes_fold:
  "fold (\<lambda>(user, pass) buf. buf @ (user @ [colon] @ pass @ [newline])) kvs acc =
     acc @ concat (map (\<lambda>(user, pass). (user @ [colon] @ pass) @ [newline]) kvs)"
  by (induction kvs arbitrary: acc) (auto split: prod.splits)

lemma Bytes_entryLines: "Bytes ks f = concat (map (\<lambda>l. l @ [newline]) (entryLines ks f))"
  unfolding Bytes_def entryLines_def Bytes_fold
  by (simp add: comp_def case_prod_unfold)

lemma mapRange_rangeOrder:
  "rangeOrder m ks \<Longrightarrow> mapRange m ks = map (\<lambda>k. (k, the (m k))) ks"
  by (simp add: rangeOrder_def mapRange_eq_map)

lemma map_of_mapRange:
  assumes "rangeOrder m ks"
  shows "map_of (mapRange m ks) = m"
proof
  fix k
  show "map_of (mapRange m ks) k = m k"
  proof (cases "k \<in> set ks")
    case True
    then have "map_of (map (\<lambda>k. (k, the (m k))) ks) k = Some (the (m k))"
      by (induction ks) auto
    moreover from True assms have "m k \<noteq> None"
      by (auto simp: rangeOrder_def)
    ultimately show ?thesis
      using assms by (auto simp: mapRange_rangeOrder)
  next
    case False
    then have "map_of (map (\<lambda>k. (k, the (m k))) ks) k = None"
      by (simp add: map_of_eq_None_iff image_image)
    moreover from False assms have "m k = None"
      by (auto simp: rangeOrder_def)
    ultimately show ?thesis
      using assms by (simp add: mapRange_rangeOrder)
  qed
qed

lemma set_mapRange:
  "rangeOrder m ks \<Longrightarrow> (u, p) \<in> set (mapRange m ks) \<longleftrightarrow> m u = Some p"
  by (auto simp: mapRange_rangeOrder rangeOrder_def)

lemma length_entryLines:
  "rangeOrder (passwords f) ks \<Longrightarrow> length (entryLines ks f) = card (dom (passwords f))"
  using distinct_card [of ks]
  by (simp add: entryLines_def mapRange_rangeOrder) (simp add: rangeOrder_def)

lemma entryLines_newline:
  assumes "rangeOrder (passwords f) ks"
    and "\<forall>u p. passwords f u = Some p \<longrightarrow> newline \<notin> set u \<and> newline \<notin> set p"
  shows "\<forall>l\<in>set (entryLines ks f). newline \<notin> set l"
  using assms by (auto simp: entryLines_def set_mapRange colon_def newline_def)

lemma colon_TrimLeft: "colon \<in> set s \<Longrightarrow> colon \<in> set (TrimLeft s)"
proof (induction s rule: TrimLeft.induct)
  case (1 s)
  show ?case
  proof (cases "spaceWidth s = 0")
    case True
    with 1 show ?thesis by (simp add: TrimLeft_id)
  next
    case False
    then have "colon \<notin> set (take (spaceWidth s) s)"
      by (intro isSpace_colon spaceWidth_isSpace)
    moreover have "set s = set (take (spaceWidth s) s) \<union> set (drop (spaceWidth s) s)"
      by (metis append_take_drop_id set_append)
    ultimately have "colon \<in> set (drop (spaceWidth s) s)"
      using "1.prems" by auto
    with False 1 show ?thesis by (simp add: TrimLeft_step)
  qed
qed

lemma colon_TrimRight: "colon \<in> set s \<Longrightarrow> colon \<in> set (TrimRight s)"
proof (induction s rule: TrimRight.induct)
  case (1 s)
  show ?case
  proof (cases "spaceWidthLast s = 0")
    case True
    with 1 show ?thesis by (simp add: TrimRight_id)
  next
    case False
    let ?n = "length s - spaceWidthLast s"
    from False have "colon \<notin> set (drop ?n s)"
      by (intro isSpace_colon spaceWidthLast_isSpace)
    moreover have "set s = set (take ?n s) \<union> set (drop ?n s)"
      by (metis append_take_drop_id set_append)
    ultimately have "colon \<in> set (take ?n s)"
      using "1.prems" by auto
    with False 1 show ?thesis by (simp add: TrimRight_step)
  qed
qed

lemma entryLines_nonblank: "\<forall>l\<in>set (entryLines ks f). TrimSpace l \<noteq> []"
proof
  fix l assume "l \<in> set (entryLines ks f)"
  then have "colon \<in> set l" by (auto simp: entryLines_def)
  then have "colon \<in> set (TrimSpace l)"
    unfolding TrimSpace_def by (intro colon_TrimRight colon_TrimLeft)
  then show "TrimSpace l \<noteq> []" by auto
qed

text \<open>
  A username with a newline in it makes one entry two lines: the file with the only
  entry \<open>a\<newline>b\<close> \<open>\<mapsto>\<close> \<open>x\<close> is written as the two newline-terminated lines
  \<open>a\<close> and \<open>b:x\<close>.
\<close>

theorem Bytes_lines_counterexample:
  "rangeOrder (passwords \<lparr>passwords = [''a\<newline>b'' \<mapsto> ''x'']\<rparr>) [''a\<newline>b'']
   \<and> card (dom (passwords \<lparr>passwords = [''a\<newline>b'' \<mapsto> ''x'']\<rparr>)) = 1
   \<and> Bytes [''a\<newline>b''] \<lparr>passwords = [''a\<newline>b'' \<mapsto> ''x'']\<rparr> = ''a\<newline>b:x\<newline>''
   \<and> Split ''a\<newline>b:x\<newline>'' newline = [''a'', ''b:x'', []]"
  by (simp add: rangeOrder_def Bytes_def mapRange_def List.map_filter_def colon_def newline_def)

text \<open>
  C8, as the code has it. For every file, \<open>Bytes\<close> writes the entries one after
  the other, each as the username, a colon, the credential and a newline. When no
  username and no credential contains a newline, the output has one newline-terminated
  line for each entry of the map and no blank line.
\<close>

theorem Bytes_lines:
  assumes "rangeOrder (passwords f) ks"
    and "\<forall>u p. passwords f u = Some p \<longrightarrow> newline \<notin> set u \<and> newline \<notin> set p"
  shows "Bytes ks f = concat (map (\<lambda>l. l @ [newline]) (entryLines ks f))
    \<and> entryLines ks f = map (\<lambda>u. u @ [colon] @ the (passwords f u)) ks
    \<and> length (entryLines ks f) = card (dom (passwords f))
    \<and> Split (Bytes ks f) newline = entryLines ks f @ [[]]
    \<and> (\<forall>l\<in>set (entryLines ks f). TrimSpace l \<noteq> [])"
proof -
  have "Split (Bytes ks f) newline = entryLines ks f @ [[]]"
    unfolding Bytes_entryLines using entryLines_newline [OF assms] by (rule Split_lines)
  moreover have "entryLines ks f = map (\<lambda>u. u @ [colon] @ the (passwords f u)) ks"
    using assms(1) by (simp add: entryLines_def mapRange_rangeOrder)
  moreover have "Bytes ks f = concat (map (\<lambda>l. l @ [newline]) (entryLines ks f))"
    by (rule Bytes_entryLines)
  moreover have "length (entryLines ks f) = card (dom (passwords f))"
    using assms(1) by (rule length_entryLines)
  moreover have "\<forall>l\<in>set (entryLines ks f). TrimSpace l \<noteq> []"
    by (rule entryLines_nonblank)
  ultimately show ?thesis by (intro conjI)
qed

theorem Bytes_lines_witness:
  "rangeOrder (passwords \<lparr>passwords = [''alice'' \<mapsto> ''x'', ''bob'' \<mapsto> ''y'']\<rparr>) [''bob'', ''alice'']
   \<and> Bytes [''bob'', ''alice''] \<lparr>passwords = [''alice'' \<mapsto> ''x'', ''bob'' \<mapsto> ''y'']\<rparr>
       = ''bob:y\<newline>alice:x\<newline>''
   \<and> Split ''bob:y\<newline>alice:x\<newline>'' newline = [''bob:y'', ''alice:x'', []]"
proof -
  let ?f = "\<lparr>passwords = [''alice'' \<mapsto> ''x'', ''bob'' \<mapsto> ''y'']\<rparr>"
  have a: "rangeOrder (passwords ?f) [''bob'', ''alice'']"
    by (auto simp: rangeOrder_def)
  have b: "\<forall>u p. passwords ?f u = Some p \<longrightarrow> newline \<notin> set u \<and> newline \<notin> set p"
    by (auto simp: newline_def split: if_splits)
  have c: "entryLines [''bob'', ''alice''] ?f = [''bob:y'', ''alice:x'']"
    by (simp add: entryLines_def mapRange_def List.map_filter_def colon_def)
  from Bytes_lines [OF a b] have "Bytes [''bob'', ''alice''] ?f
      = concat (map (\<lambda>l. l @ [newline]) (entryLines [''bob'', ''alice''] ?f))"
    and "Split (Bytes [''bob'', ''alice''] ?f) newline = entryLines [''bob'', ''alice''] ?f @ [[]]"
    by blast+
  then show ?thesis using a unfolding c by (simp add: newline_def)
qed

section \<open>Round trip\<close>

lemma entryLine_wellFormed:
  assumes "wellFormedEntry u p"
  shows "TrimSpace (u @ colon # p) = u @ colon # p"
    and "twoFields (u @ colon # p)"
    and "lineEntry (u @ colon # p) = (u, p)"
    and "newline \<notin> set (u @ colon # p)"
proof -
  from assms show "TrimSpace (u @ colon # p) = u @ colon # p"
    by (simp add: wellFormedEntry_def TrimSpace_line)
  from assms have s: "Split (u @ colon # p) colon = [u, p]"
    by (simp add: wellFormedEntry_def Split_fields)
  then show "twoFields (u @ colon # p)" by (simp add: twoFields_def)
  from s assms show "lineEntry (u @ colon # p) = (u, p)"
    by (simp add: lineEntry_def wellFormedEntry_def)
  from assms show "newline \<notin> set (u @ colon # p)"
    by (simp add: wellFormedEntry_def colon_def newline_def)
qed

text \<open>
  C1. For every file whose entries are well formed, and in whatever order \<open>Bytes\<close>
  iterates over the map, decoding the bytes that \<open>Bytes\<close> writes succeeds and gives
  the same file.
\<close>

theorem roundtrip:
  assumes "rangeOrder (passwords f) ks"
    and "\<forall>u p. passwords f u = Some p \<longrightarrow> wellFormedEntry u p"
  shows "newPasswordFile (Bytes ks f) = Inr f"
proof -
  let ?kvs = "mapRange (passwords f) ks"
  have wf: "wellFormedEntry u p" if "(u, p) \<in> set ?kvs" for u p
    using that assms by (simp add: set_mapRange)
  have trim: "map TrimSpace (entryLines ks f) = entryLines ks f"
    unfolding entryLines_def by (auto simp: entryLine_wellFormed(1) dest: wf)
  have ne: "\<forall>l\<in>set (entryLines ks f). l \<noteq> []"
    by (auto simp: entryLines_def)
  have nl: "\<forall>l\<in>set (entryLines ks f). newline \<notin> set l"
    unfolding entryLines_def using entryLine_wellFormed(4) wf by fastforce
  have "Split (Bytes ks f) newline = entryLines ks f @ [[]]"
    unfolding Bytes_entryLines using nl by (rule Split_lines)
  then have nb: "nonblankLines (Bytes ks f) = entryLines ks f"
    using ne by (simp add: nonblankLines_def nonblank_def trim TrimSpace_Nil filter_id_conv)
  have two: "\<forall>l\<in>set (entryLines ks f). twoFields l"
    unfolding entryLines_def using entryLine_wellFormed(2) wf by fastforce
  have ent: "map lineEntry (entryLines ks f) = ?kvs"
  proof -
    have "(lineEntry \<circ> (\<lambda>(user, pass). user @ [colon] @ pass)) (u, p) = (u, p)"
      if "(u, p) \<in> set ?kvs" for u p
      using entryLine_wellFormed(3) [OF wf [OF that]] by simp
    then have "(lineEntry \<circ> (\<lambda>(user, pass). user @ [colon] @ pass)) kv = kv"
      if "kv \<in> set ?kvs" for kv
      using that by (cases kv) blast
    then show ?thesis
      unfolding entryLines_def map_map by (rule map_idI)
  qed
  then have "map lineUser (entryLines ks f) = map fst ?kvs"
    by (metis fst_lineEntry list.map_comp comp_apply map_eq_conv)
  then have dist: "distinct (map lineUser (entryLines ks f))"
    using assms(1) by (simp add: fst_mapRange rangeOrder_def)
  have "newPasswordFile (Bytes ks f) =
      Inr \<lparr>passwords = map_of (map lineEntry (nonblankLines (Bytes ks f)))\<rparr>"
    using dist two unfolding nb [symmetric] by (rule decode_success)
  then show ?thesis
    using assms(1) by (simp add: nb ent map_of_mapRange)
qed

theorem roundtrip_witness:
  "rangeOrder (passwords \<lparr>passwords = [''alice'' \<mapsto> ''x'', ''bob'' \<mapsto> ''y'']\<rparr>) [''bob'', ''alice'']
   \<and> wellFormedEntry ''alice'' ''x'' \<and> wellFormedEntry ''bob'' ''y''
   \<and> Bytes [''bob'', ''alice''] \<lparr>passwords = [''alice'' \<mapsto> ''x'', ''bob'' \<mapsto> ''y'']\<rparr>
       = ''bob:y\<newline>alice:x\<newline>''
   \<and> newPasswordFile ''bob:y\<newline>alice:x\<newline>''
       = Inr \<lparr>passwords = [''alice'' \<mapsto> ''x'', ''bob'' \<mapsto> ''y'']\<rparr>"
proof -
  let ?f = "\<lparr>passwords = [''alice'' \<mapsto> ''x'', ''bob'' \<mapsto> ''y'']\<rparr>"
  have a: "rangeOrder (passwords ?f) [''bob'', ''alice'']"
    by (auto simp: rangeOrder_def)
  have w1: "wellFormedEntry ''alice'' ''x''"
    by code_simp
  have w2: "wellFormedEntry ''bob'' ''y''"
    by code_simp
  have b: "\<forall>u p. passwords ?f u = Some p \<longrightarrow> wellFormedEntry u p"
    using w1 w2 by (auto split: if_splits)
  have c: "Bytes [''bob'', ''alice''] ?f = ''bob:y\<newline>alice:x\<newline>''"
    by (simp add: Bytes_def mapRange_def List.map_filter_def colon_def newline_def)
  from roundtrip [OF a b] have "newPasswordFile (Bytes [''bob'', ''alice''] ?f) = Inr ?f" .
  then have "newPasswordFile ''bob:y\<newline>alice:x\<newline>'' = Inr ?f"
    by (simp only: c)
  with a w1 w2 c show ?thesis by (intro conjI)
qed

section \<open>White space only\<close>

lemma spaceRunes_width:
  "\<forall>e\<in>set spaceRunes. \<forall>x. spaceWidth (e @ x) = length e \<and> e \<noteq> []"
  unfolding spaceWidth_def isSpace_def by (simp add: spaceRunes_def)

lemma spaceRune_width: "e \<in> set spaceRunes \<Longrightarrow> spaceWidth (e @ x) = length e \<and> e \<noteq> []"
  using spaceRunes_width by blast

lemma TrimLeft_spaceRune:
  assumes "e \<in> set spaceRunes"
  shows "TrimLeft (e @ x) = TrimLeft x"
proof -
  from assms have "spaceWidth (e @ x) = length e" and "e \<noteq> []"
    by (simp_all add: spaceRune_width)
  then show ?thesis by (simp add: TrimLeft_step)
qed

lemma TrimLeft_spaces: "set es \<subseteq> set spaceRunes \<Longrightarrow> TrimLeft (concat es) = []"
  by (induction es) (simp_all add: TrimLeft_Nil TrimLeft_spaceRune)

lemma Split_spaces:
  "set es \<subseteq> set spaceRunes \<Longrightarrow> \<forall>l\<in>set (Split (concat es) newline). TrimLeft l = []"
proof (induction es)
  case Nil
  then show ?case by (simp add: TrimLeft_Nil)
next
  case (Cons e es)
  then have e: "e \<in> set spaceRunes"
    and IH: "\<forall>l\<in>set (Split (concat es) newline). TrimLeft l = []"
    by simp_all
  let ?L = "Split (concat es) newline"
  have L: "?L \<noteq> []" by (rule Split_not_Nil)
  from e have "isSpace e" by (simp add: isSpace_def)
  then consider "e = [newline]" | "newline \<notin> set e"
    using isSpace_newline by blast
  then show ?case
  proof cases
    case 1
    with IH show ?thesis by (simp add: TrimLeft_Nil)
  next
    case 2
    then have s: "Split (concat (e # es)) newline = (e @ hd ?L) # tl ?L"
      by (simp add: Split_append_no_sep)
    have "TrimLeft (e @ hd ?L) = []"
      using e IH L by (simp add: TrimLeft_spaceRune)
    moreover have "\<forall>l\<in>set (tl ?L). TrimLeft l = []"
      using IH L by (metis list.set_sel(2))
    ultimately show ?thesis unfolding s by simp
  qed
qed

lemma nonblank_spaces:
  assumes "set es \<subseteq> set spaceRunes"
  shows "nonblankLines (concat es) = []"
proof -
  have "TrimSpace l = []" if "l \<in> set (Split (concat es) newline)" for l
    using Split_spaces [OF assms] that by (simp add: TrimSpace_def TrimRight_Nil)
  then show ?thesis
    by (simp add: nonblankLines_def nonblank_def filter_empty_conv)
qed

text \<open>
  C10. Decoding an input that is empty, or that is a sequence of white space runes
  (newlines among them), succeeds with a file without entries, and \<open>ListUsers\<close> on
  that file returns the empty sequence.
\<close>

theorem decode_whitespace:
  assumes "set es \<subseteq> set spaceRunes"
  shows "newPasswordFile (concat es) = Inr \<lparr>passwords = Map.empty\<rparr>
    \<and> ListUsers ks \<lparr>passwords = Map.empty\<rparr> = Inr []"
proof -
  have "newPasswordFile (concat es) =
      Inr \<lparr>passwords = map_of (map lineEntry (nonblankLines (concat es)))\<rparr>"
    by (rule decode_success) (simp_all add: nonblank_spaces [OF assms])
  then show ?thesis
    by (simp add: nonblank_spaces [OF assms] ListUsers_eq)
qed

theorem decode_whitespace_witness:
  "set [[CHR 0x20], [CHR 0x0A], [CHR 0xC2, CHR 0xA0], [CHR 0x09], [CHR 0x0A]] \<subseteq> set spaceRunes
   \<and> newPasswordFile [CHR 0x20, CHR 0x0A, CHR 0xC2, CHR 0xA0, CHR 0x09, CHR 0x0A]
       = Inr \<lparr>passwords = Map.empty\<rparr>
   \<and> newPasswordFile [] = Inr \<lparr>passwords = Map.empty\<rparr>
   \<and> ListUsers [] \<lparr>passwords = Map.empty\<rparr> = Inr []"
proof -
  have a: "set [[CHR 0x20], [CHR 0x0A], [CHR 0xC2, CHR 0xA0], [CHR 0x09], [CHR 0x0A]]
      \<subseteq> set spaceRunes"
    by (simp add: spaceRunes_def)
  have b: "set ([] :: string list) \<subseteq> set spaceRunes"
    by simp
  from decode_whitespace [OF a, of "[]"] decode_whitespace [OF b, of "[]"] a
  show ?thesis by simp
qed

section \<open>The digest of the password \<open>secret\<close>\<close>

lemma replicate_49: "replicate 49 c = [c, c, c, c, c, c, c, c, c, c, c, c, c, c, c, c, c, c, c, c, c, c, c, c, c, c, c, c, c, c, c, c, c, c, c, c, c, c, c, c, c, c, c, c, c, c, c, c, c]"
  by (simp add: eval_nat_numeral)

lemma secret_padding:
  "sha1_padding (length ''secret'') =
     CHR 0x80 # replicate 49 (CHR 0x00)
       @ [CHR 0x00, CHR 0x00, CHR 0x00, CHR 0x00, CHR 0x00, CHR 0x00, CHR 0x00, CHR 0x30]"
  by (simp add: sha1_padding_def char_of_def bit_iff_odd_drop_bit)

lemma secret_padded:
  "''secret'' @ sha1_padding (length ''secret'') =
     ''secret'' @ [CHR 0x80, CHR 0x00, CHR 0x00, CHR 0x00, CHR 0x00, CHR 0x00, CHR 0x00, CHR 0x00, CHR 0x00, CHR 0x00, CHR 0x00, CHR 0x00, CHR 0x00, CHR 0x00, CHR 0x00, CHR 0x00, CHR 0x00, CHR 0x00, CHR 0x00, CHR 0x00, CHR 0x00, CHR 0x00, CHR 0x00, CHR 0x00, CHR 0x00, CHR 0x00, CHR 0x00, CHR 0x00, CHR 0x00, CHR 0x00, CHR 0x00, CHR 0x00, CHR 0x00, CHR 0x00, CHR 0x00, CHR 0x00, CHR 0x00, CHR 0x00, CHR 0x00, CHR 0x00, CHR 0x00, CHR 0x00, CHR 0x00, CHR 0x00, CHR 0x00, CHR 0x00, CHR 0x00, CHR 0x00, CHR 0x00, CHR 0x00, CHR 0x00, CHR 0x00, CHR 0x00, CHR 0x00, CHR 0x00, CHR 0x00, CHR 0x00, CHR 0x30]"
  unfolding secret_padding replicate_49 by simp

lemma upt_16: "[0..<16] = [0, 1, 2, 3, 4, 5, 6, 7, 8, 9, 10, 11, 12, 13, 14, 15]"
  by (simp add: upt_rec)

lemma secret_words:
  "map (\<lambda>i. be32 (''secret'' @ [CHR 0x80, CHR 0x00, CHR 0x00, CHR 0x00, CHR 0x00, CHR 0x00, CHR 0x00, CHR 0x00, CHR 0x00, CHR 0x00, CHR 0x00, CHR 0x00, CHR 0x00, CHR 0x00, CHR 0x00, CHR 0x00, CHR 0x00, CHR 0x00, CHR 0x00, CHR 0x00, CHR 0x00, CHR 0x00, CHR 0x00, CHR 0x00, CHR 0x00, CHR 0x00, CHR 0x00, CHR 0x00, CHR 0x00, CHR 0x00, CHR 0x00, CHR 0x00, CHR 0x00, CHR 0x00, CHR 0x00, CHR 0x00, CHR 0x00, CHR 0x00, CHR 0x00, CHR 0x00, CHR 0x00, CHR 0x00, CHR 0x00, CHR 0x00, CHR 0x00, CHR 0x00, CHR 0x00, CHR 0x00, CHR 0x00, CHR 0x00, CHR 0x00, CHR 0x00, CHR 0x00, CHR 0x00, CHR 0x00, CHR 0x00, CHR 0x00, CHR 0x30]) (i * 4)) [0..<16]
     = [1936024434, 1702133760, 0, 0, 0, 0, 0, 0, 0, 0, 0, 0, 0, 0, 0, 48]"
  unfolding upt_16 by (simp add: be32_def)

lemma upt_0_20: "[0..<20] = [0, 1, 2, 3, 4, 5, 6, 7, 8, 9, 10, 11, 12, 13, 14, 15, 16, 17, 18, 19]"
  by (simp add: upt_rec)

lemma secret_rounds_0_20:
  "fold sha1_round [0..<20]
     ([1936024434, 1702133760, 0, 0, 0, 0, 0, 0, 0, 0, 0, 0, 0, 0, 0, 48],
      1732584193, 4023233417, 2562383102, 271733878, 3285377520) =
     ([3872048868, 3404267520, 96, 3449130441, 0, 0, 0, 0, 0, 0, 0, 0, 0, 0, 0, 48],
      3328909954, 1353694208, 3149196750, 217002074, 1631094361)"
  unfolding upt_0_20 by (simp add: sha1_round_def RotateLeft32_def)

lemma upt_20_40: "[20..<40] = [20, 21, 22, 23, 24, 25, 26, 27, 28, 29, 30, 31, 32, 33, 34, 35, 36, 37, 38, 39]"
  by (simp add: upt_rec)

lemma secret_rounds_20_40:
  "fold sha1_round [20..<40]
     ([3872048868, 3404267520, 96, 3449130441, 0, 0, 0, 0, 0, 0, 0, 0, 0, 0, 0, 48],
      3328909954, 1353694208, 3149196750, 217002074, 1631094361) =
     ([194942531, 3195407362, 2997991609, 2350264469, 3091657661, 1863021548, 1121335106, 1464349062, 3449130057, 2743351078, 1464336390, 768, 1823239758, 2928673260, 4223909102, 465755195],
      2017623076, 2860683411, 979676353, 3080830283, 2947258135)"
  unfolding upt_20_40 by (simp add: sha1_round_def RotateLeft32_def)

lemma upt_40_60: "[40..<60] = [40, 41, 42, 43, 44, 45, 46, 47, 48, 49, 50, 51, 52, 53, 54, 55, 56, 57, 58, 59]"
  by (simp add: upt_rec)

lemma secret_rounds_40_60:
  "fold sha1_round [40..<60]
     ([194942531, 3195407362, 2997991609, 2350264469, 3091657661, 1863021548, 1121335106, 1464349062, 3449130057, 2743351078, 1464336390, 768, 1823239758, 2928673260, 4223909102, 465755195],
      2017623076, 2860683411, 979676353, 3080830283, 2947258135) =
     ([318142759, 583745231, 761492388, 2609771102, 4113763111, 3016351949, 1896699842, 2023501993, 3274246537, 2739366240, 2517492867, 1352397340, 583172003, 3435446696, 491633980, 2692561977],
      3389807696, 4175543643, 2340733070, 2336081274, 1145282242)"
  unfolding upt_40_60 by (simp add: sha1_round_def RotateLeft32_def)

lemma upt_60_80: "[60..<80] = [60, 61, 62, 63, 64, 65, 66, 67, 68, 69, 70, 71, 72, 73, 74, 75, 76, 77, 78, 79]"
  by (simp add: upt_rec)

lemma secret_rounds_60_80:
  "fold sha1_round [60..<80]
     ([318142759, 583745231, 761492388, 2609771102, 4113763111, 3016351949, 1896699842, 2023501993, 3274246537, 2739366240, 2517492867, 1352397340, 583172003, 3435446696, 491633980, 2692561977],
      3389807696, 4175543643, 2340733070, 2336081274, 1145282242) =
     ([3700416872, 2360790262, 1003419580, 1218446287, 3070206791, 3301025996, 1304247325, 2101099168, 2597669212, 1705957166, 101765214, 539661922, 3120164006, 119593444, 3666153787, 932444764],
      2124732186, 3008438673, 1335138508, 2585066180, 2724996100)"
  unfolding upt_60_80 by (simp add: sha1_round_def RotateLeft32_def)

lemma upt_80: "[0..<80] = [0..<20] @ [20..<40] @ [40..<60] @ [60..<80]"
  unfolding upt_0_20 upt_20_40 upt_40_60 upt_60_80 by (simp add: upt_rec)

lemma secret_block:
  "sha1_block (0x67452301, 0xEFCDAB89, 0x98BADCFE, 0x10325476, 0xC3D2E1F0)
     (''secret'' @ [CHR 0x80, CHR 0x00, CHR 0x00, CHR 0x00, CHR 0x00, CHR 0x00, CHR 0x00, CHR 0x00, CHR 0x00, CHR 0x00, CHR 0x00, CHR 0x00, CHR 0x00, CHR 0x00, CHR 0x00, CHR 0x00, CHR 0x00, CHR 0x00, CHR 0x00, CHR 0x00, CHR 0x00, CHR 0x00, CHR 0x00, CHR 0x00, CHR 0x00, CHR 0x00, CHR 0x00, CHR 0x00, CHR 0x00, CHR 0x00, CHR 0x00, CHR 0x00, CHR 0x00, CHR 0x00, CHR 0x00, CHR 0x00, CHR 0x00, CHR 0x00, CHR 0x00, CHR 0x00, CHR 0x00, CHR 0x00, CHR 0x00, CHR 0x00, CHR 0x00, CHR 0x00, CHR 0x00, CHR 0x00, CHR 0x00, CHR 0x00, CHR 0x00, CHR 0x00, CHR 0x00, CHR 0x00, CHR 0x00, CHR 0x00, CHR 0x00, CHR 0x30]) =
     (0xE5E9FA1B, 0xA31ECD1A, 0xE84F75CA, 0xAA474F3A, 0x663F05F4)"
  unfolding sha1_block_def secret_words upt_80 fold_append comp_apply
    secret_rounds_0_20 secret_rounds_20_40 secret_rounds_40_60 secret_rounds_60_80
  by simp

lemma secret_blocks:
  "sha1_blocks (0x67452301, 0xEFCDAB89, 0x98BADCFE, 0x10325476, 0xC3D2E1F0)
     (''secret'' @ sha1_padding (length ''secret'')) =
     (0xE5E9FA1B, 0xA31ECD1A, 0xE84F75CA, 0xAA474F3A, 0x663F05F4)"
  unfolding secret_padded
  by (subst sha1_blocks.simps, simp add: secret_block [simplified])
     (subst sha1_blocks.simps, simp)

lemma secret_Sum:
  "sha1_Sum ''secret'' =
     [CHR 0xE5, CHR 0xE9, CHR 0xFA, CHR 0x1B, CHR 0xA3, CHR 0x1E, CHR 0xCD, CHR 0x1A,
      CHR 0xE8, CHR 0x4F, CHR 0x75, CHR 0xCA, CHR 0xAA, CHR 0x47, CHR 0x4F, CHR 0x3A,
      CHR 0x66, CHR 0x3F, CHR 0x05, CHR 0xF4]"
  unfolding sha1_Sum_def secret_blocks
  by (simp add: put32_def drop_bit_eq_div char_of_def bit_iff_odd_drop_bit)

lemma secret_credential:
  "EncodeToString (sha1_Sum ''secret'') = ''5en6G6MezRroT3XKqkdPOmY/BfQ=''"
  unfolding secret_Sum by (simp add: encodeStd_def)

section \<open>Setting a password\<close>

text \<open>
  C2. For every file, username and password, \<open>SetPassword\<close> returns no error and
  sets the entry of the username to \<open>{SHA}\<close> followed by the padded standard base64
  encoding of the SHA-1 digest of the password; for the password \<open>secret\<close> the entry
  is \<open>{SHA}5en6G6MezRroT3XKqkdPOmY/BfQ=\<close>.
\<close>

theorem SetPassword_digest:
  "fst (SetPassword f username password) = None
   \<and> passwords (snd (SetPassword f username password))
       = (passwords f)(username \<mapsto> ''{SHA}'' @ EncodeToString (sha1_Sum password))
   \<and> passwords (snd (SetPassword f username ''secret'')) username
       = Some ''{SHA}5en6G6MezRroT3XKqkdPOmY/BfQ=''"
  by (simp add: SetPassword_def secret_credential)



section \<open>Deleting a user\<close>

text \<open>
  C6. For every file and every username that is not a key of its map, \<open>DeleteUser\<close>
  returns the error \<open>user ... does not exist\<close>, and the file after the failed call
  is the file before it.
\<close>

theorem DeleteUser_absent:
  "passwords f username = None \<Longrightarrow>
   DeleteUser f username = (Some (UserNotExist username), f)"
  by (simp add: DeleteUser_def)

theorem DeleteUser_absent_witness:
  "passwords \<lparr>passwords = [''alice'' \<mapsto> ''x'']\<rparr> ''carol'' = None
   \<and> DeleteUser \<lparr>passwords = [''alice'' \<mapsto> ''x'']\<rparr> ''carol''
       = (Some (UserNotExist ''carol''), \<lparr>passwords = [''alice'' \<mapsto> ''x'']\<rparr>)"
  using DeleteUser_absent [of "\<lparr>passwords = [''alice'' \<mapsto> ''x'']\<rparr>" "''carol''"]
  by simp

text \<open>
  C7. For every file and every username that is a key of its map, \<open>DeleteUser\<close>
  returns no error and removes that entry only: the username is absent afterwards, every
  other username keeps its credential, and \<open>ListUsers\<close> on the file afterwards, in
  whatever order the runtime iterates, returns every other username once and not the
  deleted one.
\<close>

theorem DeleteUser_present:
  assumes "passwords f username \<noteq> None"
    and "DeleteUser f username = (err, f')"
    and "rangeOrder (passwords f') ks"
  shows "err = None
    \<and> passwords f' username = None
    \<and> (\<forall>u. u \<noteq> username \<longrightarrow> passwords f' u = passwords f u)
    \<and> (\<exists>users. ListUsers ks f' = Inr users \<and> distinct users
          \<and> set users = dom (passwords f) - {username})"
proof -
  from assms(1,2) have e: "err = None"
    and f': "f' = f\<lparr>passwords := (passwords f)(username := None)\<rparr>"
    by (auto simp: DeleteUser_def)
  have "ListUsers ks f' = Inr ks"
    using assms(3) by (simp add: ListUsers_eq rangeOrder_def filter_id_conv domIff)
  moreover have "distinct ks" "set ks = dom (passwords f) - {username}"
    using assms(3) by (auto simp: rangeOrder_def f')
  ultimately show ?thesis using e f' by simp
qed

theorem DeleteUser_present_witness:
  "passwords \<lparr>passwords = [''alice'' \<mapsto> ''x'', ''bob'' \<mapsto> ''y'']\<rparr> ''alice'' \<noteq> None
   \<and> DeleteUser \<lparr>passwords = [''alice'' \<mapsto> ''x'', ''bob'' \<mapsto> ''y'']\<rparr> ''alice''
       = (None, \<lparr>passwords = [''bob'' \<mapsto> ''y'']\<rparr>)
   \<and> rangeOrder (passwords \<lparr>passwords = [''bob'' \<mapsto> ''y'']\<rparr>) [''bob'']
   \<and> ListUsers [''bob''] \<lparr>passwords = [''bob'' \<mapsto> ''y'']\<rparr> = Inr [''bob'']"
proof -
  let ?f = "\<lparr>passwords = [''alice'' \<mapsto> ''x'', ''bob'' \<mapsto> ''y'']\<rparr>"
  let ?f' = "\<lparr>passwords = [''bob'' \<mapsto> ''y'']\<rparr>"
  have a: "passwords ?f ''alice'' \<noteq> None" by simp
  have b: "DeleteUser ?f ''alice'' = (None, ?f')"
    by (simp add: DeleteUser_def fun_eq_iff)
  have c: "rangeOrder (passwords ?f') [''bob'']" by (simp add: rangeOrder_def)
  from DeleteUser_present [OF a b c] a b c show ?thesis
    by (auto simp: ListUsers_eq)
qed

end
